theory Spec2Isabelle
  imports Main "HOL-Library.Word"
begin

section \<open>The packet framer of \<open>src/main/network/PacketStream.ts\<close>\<close>

text \<open>
  \<open>PacketStream\<close> is a Node \<open>Transform\<close> stream that splits a byte stream into packets
  \<open>{ type: number; data: Buffer }\<close>. Its state is the two private fields \<open>#buf\<close> (an
  array of Buffers) and \<open>#bufLen\<close> (a number). A Buffer is modelled by the list of its
  bytes; \<open>Buffer.concat\<close> is \<open>concat\<close>, \<open>b.subarray(n)\<close> is \<open>drop n b\<close> and
  \<open>b.subarray(0, n)\<close> is \<open>take n b\<close> (both clamp to the Buffer's length, as
  \<open>subarray\<close> does). \<open>#bufLen\<close> is a natural number: the only subtraction of the source
  (line 99) is guarded by the comparison of line 88, so it never goes below zero.
\<close>

subsection \<open>Data\<close>

type_synonym byte = "8 word"

type_synonym Buffer = "byte list"

text \<open>What the source throws or hands to the callback.\<close>

datatype error =
    ObjectModeError  \<comment> \<open>\<open>new Error('PacketStream does not support writable object mode.')\<close>\<close>
  | RangeError       \<comment> \<open>an out-of-range \<open>readUInt8\<close>/\<open>readUInt16LE\<close>\<close>
  | TypeError        \<comment> \<open>a method call on \<open>undefined\<close> (\<open>this.#buf[0]\<close> of an empty array)\<close>

text \<open>The object pushed downstream at lines 94-97.\<close>

record packet =
  type :: nat
  data :: Buffer

record PacketStream =
  buf :: "Buffer list"
  bufLen :: nat

text \<open>
  The \<open>chunk: any\<close> argument of \<open>_transform\<close>: a Buffer, a string, or anything else.
\<close>

datatype chunk = BufferChunk Buffer | StringChunk string | ObjectChunk

definition HEADER_LENGTH :: nat where
  "HEADER_LENGTH = 3"

text \<open>The state the constructor leaves (lines 30-31).\<close>

definition constructor :: PacketStream where
  "constructor = \<lparr>buf = [], bufLen = 0\<rparr>"

subsection \<open>Buffer reads\<close>

text \<open>
  Node's \<open>buf.readUInt8(offset)\<close> and \<open>buf.readUInt16LE(offset)\<close>: they throw a
  \<open>RangeError\<close> unless \<open>offset + 1\<close> (respectively \<open>offset + 2\<close>) bytes lie inside the
  Buffer.
\<close>

definition readUInt8 :: "Buffer \<Rightarrow> nat \<Rightarrow> error + nat" where
  "readUInt8 b offset =
     (if offset + 1 \<le> length b then Inr (unat (b ! offset)) else Inl RangeError)"

definition readUInt16LE :: "Buffer \<Rightarrow> nat \<Rightarrow> error + nat" where
  "readUInt16LE b offset =
     (if offset + 2 \<le> length b
      then Inr (unat (b ! offset) + 256 * unat (b ! (offset + 1)))
      else Inl RangeError)"

subsection \<open>\<open>#tryReadPacket\<close> (lines 77-101)\<close>

text \<open>
  The result pairs the state the call leaves with what it did: \<open>Inl e\<close> when it threw,
  \<open>Inr None\<close> when it returned \<open>false\<close>, and \<open>Inr (Some p)\<close> when it pushed the packet
  \<open>p\<close> and returned \<open>true\<close>. \<open>coalesce\<close> is lines 82-85.
\<close>

definition coalesce :: "bool \<Rightarrow> PacketStream \<Rightarrow> PacketStream" where
  "coalesce shouldConcatHeader this =
     (if shouldConcatHeader then this\<lparr>buf := [concat (buf this)]\<rparr> else this)"

definition tryReadPacket ::
  "bool \<Rightarrow> PacketStream \<Rightarrow> PacketStream \<times> (error + packet option)" where
  "tryReadPacket shouldConcatHeader this =
     (if bufLen this < HEADER_LENGTH then (this, Inr None)
      else
        let this1 = coalesce shouldConcatHeader this
        in case buf this1 of
             [] \<Rightarrow> (this1, Inl TypeError)
           | b0 # bs \<Rightarrow>
               (case readUInt8 b0 0 of
                  Inl e \<Rightarrow> (this1, Inl e)
                | Inr packetType \<Rightarrow>
                    (case readUInt16LE b0 1 of
                       Inl e \<Rightarrow> (this1, Inl e)
                     | Inr packetLength \<Rightarrow>
                         if bufLen this1 < HEADER_LENGTH + packetLength then (this1, Inr None)
                         else
                           let whole = concat (drop HEADER_LENGTH b0 # bs)
                           in (this1\<lparr>buf := [drop packetLength whole],
                                      bufLen := bufLen this1 - (HEADER_LENGTH + packetLength)\<rparr>,
                               Inr (Some \<lparr>type = packetType,
                                          data = take packetLength whole\<rparr>)))))"

lemma tryReadPacket_decreases:
  "tryReadPacket c this = (this', Inr (Some p)) \<Longrightarrow> bufLen this' < bufLen this"
  by (auto simp: tryReadPacket_def coalesce_def HEADER_LENGTH_def Let_def
           split: if_splits list.splits sum.splits)

subsection \<open>The loop of \<open>_transform\<close> (lines 62-64)\<close>

text \<open>
  \<open>while (this.#tryReadPacket(shouldConcatHeader)) { shouldConcatHeader = false; }\<close>
  The result is the state after the loop, the packets pushed in order, and the error
  thrown, if any.
\<close>

function readLoop ::
  "bool \<Rightarrow> PacketStream \<Rightarrow> PacketStream \<times> packet list \<times> error option" where
  "readLoop shouldConcatHeader this =
     (case tryReadPacket shouldConcatHeader this of
        (this', Inl e) \<Rightarrow> (this', [], Some e)
      | (this', Inr None) \<Rightarrow> (this', [], None)
      | (this', Inr (Some p)) \<Rightarrow>
          (case readLoop False this' of (this'', ps, r) \<Rightarrow> (this'', p # ps, r)))"
  by pat_completeness auto
termination
  by (relation "measure (\<lambda>(c, this). bufLen this)")
     (auto dest: tryReadPacket_decreases [OF sym])

declare readLoop.simps [simp del]

subsection \<open>\<open>_transform\<close> (lines 42-66)\<close>

text \<open>
  Lines 47-58: the chunk as a Buffer. \<open>Buffer.from(chunk, encoding)\<close> belongs to Node and
  is a parameter of the model, \<open>Buffer_from\<close>. Any other chunk is answered with
  \<open>callback(new Error(...), null)\<close>.
\<close>

definition chunkBuf :: "(string \<Rightarrow> 'e \<Rightarrow> Buffer) \<Rightarrow> chunk \<Rightarrow> 'e \<Rightarrow> error + Buffer" where
  "chunkBuf Buffer_from chunk encoding =
     (case chunk of
        BufferChunk b \<Rightarrow> Inr b
      | StringChunk str \<Rightarrow> Inr (Buffer_from str encoding)
      | ObjectChunk \<Rightarrow> Inl ObjectModeError)"

text \<open>
  Lines 59-61: push the Buffer, compute \<open>shouldConcatHeader\<close> from the old \<open>#bufLen\<close>,
  then add the Buffer's length.
\<close>

definition pushChunk :: "PacketStream \<Rightarrow> Buffer \<Rightarrow> bool \<times> PacketStream" where
  "pushChunk this b =
     (let this1 = this\<lparr>buf := buf this @ [b]\<rparr>;
          shouldConcatHeader = bufLen this1 < HEADER_LENGTH
      in (shouldConcatHeader, this1\<lparr>bufLen := bufLen this1 + length b\<rparr>))"

text \<open>Lines 59-65: everything \<open>_transform\<close> does once it has a Buffer.\<close>

definition transformBuffer ::
  "PacketStream \<Rightarrow> Buffer \<Rightarrow> PacketStream \<times> packet list \<times> error option" where
  "transformBuffer this b =
     (case pushChunk this b of (shouldConcatHeader, this') \<Rightarrow> readLoop shouldConcatHeader this')"

text \<open>
  The result of \<open>_transform\<close>: the state it leaves, the packets it pushed, and \<open>None\<close> for
  \<open>callback()\<close> or \<open>Some e\<close> for an error, handed to the callback (line 53) or thrown.
\<close>

definition transform ::
  "(string \<Rightarrow> 'e \<Rightarrow> Buffer) \<Rightarrow> PacketStream \<Rightarrow> chunk \<Rightarrow> 'e \<Rightarrow>
     PacketStream \<times> packet list \<times> error option" where
  "transform Buffer_from this chunk encoding =
     (case chunkBuf Buffer_from chunk encoding of
        Inl e \<Rightarrow> (this, [], Some e)
      | Inr b \<Rightarrow> transformBuffer this b)"

subsection \<open>Feeding a sequence of chunks\<close>

text \<open>
  The stream machinery calls \<open>_transform\<close> once per written chunk, in order, each call
  finishing before the next starts. \<open>writeAll\<close> collects the packets pushed and stops at
  the first error.
\<close>

fun writeAll ::
  "(string \<Rightarrow> 'e \<Rightarrow> Buffer) \<Rightarrow> PacketStream \<Rightarrow> (chunk \<times> 'e) list \<Rightarrow>
     PacketStream \<times> packet list \<times> error option" where
  "writeAll Buffer_from this [] = (this, [], None)"
| "writeAll Buffer_from this ((chunk, encoding) # rest) =
     (case transform Buffer_from this chunk encoding of
        (this', out, Some e) \<Rightarrow> (this', out, Some e)
      | (this', out, None) \<Rightarrow>
          (case writeAll Buffer_from this' rest of
             (this'', out', r) \<Rightarrow> (this'', out @ out', r)))"

text \<open>A list of Buffers as written chunks.\<close>

definition buffers :: "'e \<Rightarrow> Buffer list \<Rightarrow> (chunk \<times> 'e) list" where
  "buffers encoding cs = map (\<lambda>b. (BufferChunk b, encoding)) cs"




subsection \<open>Reachable states and reachable calls\<close>

text \<open>
  The fields are private, so a framer is only ever in a state that \<open>_transform\<close> calls
  lead to from the constructor's. A call that answers with the object-mode error leaves
  the state as it is, so the Buffer steps cover every call.
\<close>

inductive reach :: "PacketStream \<Rightarrow> bool" where
  reach_init: "reach constructor"
| reach_step: "reach this \<Longrightarrow> reach (fst (transformBuffer this b))"

text \<open>
  \<open>calls c this\<close>: in some run, \<open>#tryReadPacket(c)\<close> is called in state \<open>this\<close>: the first
  call of a loop, after lines 59-61, or a later one, after a call that returned \<open>true\<close>.
\<close>

inductive calls :: "bool \<Rightarrow> PacketStream \<Rightarrow> bool" where
  calls_first: "reach this \<Longrightarrow> pushChunk this b = (c, this') \<Longrightarrow> calls c this'"
| calls_next: "calls c this \<Longrightarrow> tryReadPacket c this = (this', Inr (Some p)) \<Longrightarrow> calls False this'"

code_pred reach .

code_pred calls .

subsection \<open>The wire format\<close>

text \<open>
  Modelled from the spec: the sender's encoder, which is not in the source.
  \<open>encodePacket\<close> follows the wire format of the specification: one byte of type, two
  bytes of payload length, little-endian, then the payload. \<open>validPacket\<close> says that
  both numbers fit their fields.
\<close>

definition validPacket :: "packet \<Rightarrow> bool" where
  "validPacket p \<longleftrightarrow> type p < 256 \<and> length (data p) < 65536"

definition encodePacket :: "packet \<Rightarrow> Buffer" where
  "encodePacket p =
     of_nat (type p) # of_nat (length (data p) mod 256) # of_nat (length (data p) div 256) # data p"

definition encodeAll :: "packet list \<Rightarrow> Buffer" where
  "encodeAll ps = concat (map encodePacket ps)"

subsection \<open>Reference framing of a byte sequence\<close>

text \<open>
  The framing of the specification, on one contiguous byte sequence: the packets that are
  complete, and the bytes left over. The proofs compare the code with it.
\<close>

definition payloadLength :: "Buffer \<Rightarrow> nat" where
  "payloadLength bs = unat (bs ! 1) + 256 * unat (bs ! 2)"

definition complete :: "Buffer \<Rightarrow> bool" where
  "complete bs \<longleftrightarrow> 3 \<le> length bs \<and> 3 + payloadLength bs \<le> length bs"

definition firstPacket :: "Buffer \<Rightarrow> packet" where
  "firstPacket bs = \<lparr>type = unat (bs ! 0), data = take (payloadLength bs) (drop 3 bs)\<rparr>"

function frames :: "Buffer \<Rightarrow> packet list \<times> Buffer" where
  "frames bs =
     (if complete bs
      then (case frames (drop (3 + payloadLength bs) bs) of
              (ps, rest) \<Rightarrow> (firstPacket bs # ps, rest))
      else ([], bs))"
  by pat_completeness auto
termination
  by (relation "measure length") (auto simp: complete_def)

declare frames.simps [simp del]

subsection \<open>Invariants of the state\<close>

text \<open>
  \<open>coherent\<close>: the cached count is the number of buffered bytes. \<open>headerInFirst\<close>: when a
  whole header is buffered, its three bytes lie in the first stored Buffer. \<open>stable\<close>: in
  addition no complete packet is waiting, which is how every call of \<open>_transform\<close> leaves
  the state.
\<close>

definition coherent :: "PacketStream \<Rightarrow> bool" where
  "coherent this \<longleftrightarrow> bufLen this = length (concat (buf this))"

definition headerInFirst :: "PacketStream \<Rightarrow> bool" where
  "headerInFirst this \<longleftrightarrow>
     (HEADER_LENGTH \<le> bufLen this \<longrightarrow> buf this \<noteq> [] \<and> HEADER_LENGTH \<le> length (hd (buf this)))"

definition stable :: "PacketStream \<Rightarrow> bool" where
  "stable this \<longleftrightarrow> coherent this \<and> headerInFirst this \<and> \<not> complete (concat (buf this))"

section \<open>The code against the reference framing\<close>

subsection \<open>Properties of the reference framing\<close>

lemma frames_incomplete: "\<not> complete bs \<Longrightarrow> frames bs = ([], bs)"
  by (simp add: frames.simps)

lemma frames_complete:
  "complete bs \<Longrightarrow>
   frames bs = (firstPacket bs # fst (frames (drop (3 + payloadLength bs) bs)),
                snd (frames (drop (3 + payloadLength bs) bs)))"
  by (subst frames.simps) (simp add: case_prod_beta)

lemma payloadLength_append: "3 \<le> length a \<Longrightarrow> payloadLength (a @ b) = payloadLength a"
  by (simp add: payloadLength_def nth_append)

lemma complete_append: "complete a \<Longrightarrow> complete (a @ b)"
  by (simp add: complete_def payloadLength_append)

lemma firstPacket_append: "complete a \<Longrightarrow> firstPacket (a @ b) = firstPacket a"
  by (auto simp: complete_def firstPacket_def payloadLength_append nth_append)

lemma frames_append:
  "frames (a @ b) =
     (fst (frames a) @ fst (frames (snd (frames a) @ b)), snd (frames (snd (frames a) @ b)))"
proof (induction a rule: frames.induct)
  case (1 bs)
  show ?case
  proof (cases "complete bs")
    case True
    then have len: "3 + payloadLength bs \<le> length bs" "3 \<le> length bs"
      by (simp_all add: complete_def)
    have "frames (bs @ b) =
        (firstPacket bs # fst (frames (drop (3 + payloadLength bs) bs @ b)),
         snd (frames (drop (3 + payloadLength bs) bs @ b)))"
      using True len
      by (simp add: frames_complete [OF complete_append] firstPacket_append payloadLength_append)
    then show ?thesis
      using True "1.IH" [OF True] by (simp add: frames_complete)
  next
    case False
    then show ?thesis by (simp add: frames_incomplete)
  qed
qed

lemma frames_rest_incomplete: "\<not> complete (snd (frames bs))"
proof (induction bs rule: frames.induct)
  case (1 bs)
  show ?case
  proof (cases "complete bs")
    case True
    then show ?thesis using "1.IH" by (simp add: frames_complete)
  next
    case False
    then show ?thesis by (simp add: frames_incomplete)
  qed
qed

subsection \<open>The code computes the reference framing\<close>

lemma header_reads:
  assumes "3 \<le> length b0"
  shows "readUInt8 b0 0 = Inr (unat ((b0 @ r) ! 0))"
    and "readUInt16LE b0 1 = Inr (payloadLength (b0 @ r))"
  using assms
  by (auto simp: readUInt8_def readUInt16LE_def payloadLength_def nth_append numeral_2_eq_2)

lemma tryReadPacket_frames:
  assumes "coherent this" and "c \<or> headerInFirst this"
  shows "tryReadPacket c this =
     (let bs = concat (buf this) in
      if complete bs
      then (\<lparr>buf = [drop (3 + payloadLength bs) bs],
             bufLen = length bs - (3 + payloadLength bs)\<rparr>, Inr (Some (firstPacket bs)))
      else (if bufLen this < HEADER_LENGTH then this else coalesce c this, Inr None))"
proof (cases "bufLen this < HEADER_LENGTH")
  case True
  then show ?thesis using assms(1)
    by (simp add: tryReadPacket_def coherent_def complete_def HEADER_LENGTH_def)
next
  case False
  define this1 where "this1 = coalesce c this"
  have cat: "concat (buf this1) = concat (buf this)" and len1: "bufLen this1 = bufLen this"
    by (simp_all add: this1_def coalesce_def)
  from False assms have "buf this1 \<noteq> [] \<and> 3 \<le> length (hd (buf this1))"
    by (auto simp: this1_def coalesce_def coherent_def headerInFirst_def HEADER_LENGTH_def)
  then obtain b0 bs where b: "buf this1 = b0 # bs" and b0: "3 \<le> length b0"
    by (cases "buf this1") auto
  have whole: "concat (drop 3 b0 # bs) = drop 3 (concat (buf this))"
    using b b0 cat by (metis concat.simps(2) drop_append diff_is_0_eq drop_0)
  have fp: "\<lparr>type = unat (concat (buf this) ! 0),
             data = take (payloadLength (concat (buf this))) (drop 3 (concat (buf this)))\<rparr>
           = firstPacket (concat (buf this))"
    by (simp add: firstPacket_def)
  have cat': "concat (buf this) = b0 @ concat bs"
    using b cat by simp
  have ge3: "3 \<le> length (concat (buf this))"
    using b0 cat' by simp
  have rd: "readUInt8 b0 0 = Inr (unat (concat (buf this) ! 0))"
      "readUInt16LE b0 1 = Inr (payloadLength (concat (buf this)))"
    using header_reads [OF b0, of "concat bs"] cat' by simp_all
  show ?thesis
    using False assms(1) b rd whole ge3 len1 fp
    unfolding tryReadPacket_def this1_def [symmetric] Let_def
    by (simp add: HEADER_LENGTH_def complete_def coherent_def drop_drop add.commute)
qed

lemma readLoop_frames:
  "coherent this \<Longrightarrow> c \<or> headerInFirst this \<Longrightarrow>
   \<exists>this'. readLoop c this = (this', fst (frames (concat (buf this))), None) \<and>
          concat (buf this') = snd (frames (concat (buf this))) \<and>
          coherent this' \<and> headerInFirst this'"
proof (induction c this rule: readLoop.induct)
  case (1 c this)
  define bs where "bs = concat (buf this)"
  note step = tryReadPacket_frames [OF "1.prems", unfolded Let_def, folded bs_def]
  show ?case
  proof (cases "complete bs")
    case True
    define this1 where "this1 = \<lparr>buf = [drop (3 + payloadLength bs) bs],
                                 bufLen = length bs - (3 + payloadLength bs)\<rparr>"
    have t: "tryReadPacket c this = (this1, Inr (Some (firstPacket bs)))"
      using step True by (simp add: this1_def)
    have "coherent this1" "headerInFirst this1"
      by (simp_all add: this1_def coherent_def headerInFirst_def)
    from "1.IH" [OF t [symmetric] refl refl this(1)] this(2)
    obtain this' where
      r: "readLoop False this1 = (this', fst (frames (concat (buf this1))), None)"
      and rest: "concat (buf this') = snd (frames (concat (buf this1)))"
      and inv: "coherent this'" "headerInFirst this'"
      by blast
    have c1: "concat (buf this1) = drop (3 + payloadLength bs) bs"
      by (simp add: this1_def)
    have "readLoop c this = (this', fst (frames bs), None)"
      by (subst readLoop.simps) (simp add: t r c1 frames_complete [OF True])
    moreover have "concat (buf this') = snd (frames bs)"
      using rest by (simp add: c1 frames_complete [OF True])
    ultimately show ?thesis
      using inv by (simp add: bs_def)
  next
    case False
    define this1 where "this1 = (if bufLen this < HEADER_LENGTH then this else coalesce c this)"
    have t: "tryReadPacket c this = (this1, Inr None)"
      using step False by (simp add: this1_def)
    have "readLoop c this = (this1, [], None)"
      by (subst readLoop.simps) (simp add: t)
    moreover have "concat (buf this1) = bs"
      by (simp add: this1_def bs_def coalesce_def)
    moreover have "coherent this1"
      using "1.prems"(1) by (simp add: this1_def coalesce_def coherent_def)
    moreover have "headerInFirst this1"
      using "1.prems" by (auto simp: this1_def coalesce_def coherent_def headerInFirst_def)
    ultimately show ?thesis
      using False by (simp add: frames_incomplete bs_def)
  qed
qed

lemma transformBuffer_frames:
  assumes "coherent this" and "headerInFirst this"
  shows "\<exists>this'. transformBuffer this b = (this', fst (frames (concat (buf this) @ b)), None) \<and>
          concat (buf this') = snd (frames (concat (buf this) @ b)) \<and>
          coherent this' \<and> headerInFirst this'"
proof -
  define this1 where "this1 = this\<lparr>buf := buf this @ [b], bufLen := bufLen this + length b\<rparr>"
  have p: "pushChunk this b = (bufLen this < HEADER_LENGTH, this1)"
    by (simp add: pushChunk_def this1_def Let_def)
  have c: "coherent this1"
    using assms(1) by (simp add: this1_def coherent_def)
  have h: "bufLen this < HEADER_LENGTH \<or> headerInFirst this1"
    using assms(2) by (auto simp: this1_def headerInFirst_def)
  have "concat (buf this1) = concat (buf this) @ b"
    by (simp add: this1_def)
  with readLoop_frames [OF c h] show ?thesis
    by (simp add: transformBuffer_def p)
qed

lemma stable_constructor: "stable constructor"
  by (simp add: stable_def coherent_def headerInFirst_def constructor_def complete_def HEADER_LENGTH_def)

lemma transformBuffer_stable:
  assumes "stable this"
  shows "\<exists>this'. transformBuffer this b = (this', fst (frames (concat (buf this) @ b)), None) \<and>
          concat (buf this') = snd (frames (concat (buf this) @ b)) \<and> stable this'"
  using transformBuffer_frames [of this b] assms
  by (auto simp: stable_def frames_rest_incomplete)

lemma reach_stable: "reach this \<Longrightarrow> stable this"
proof (induction rule: reach.induct)
  case reach_init
  show ?case by (rule stable_constructor)
next
  case (reach_step this b)
  with transformBuffer_stable [of this b] show ?case by auto
qed

lemma transform_BufferChunk: "transform F this (BufferChunk b) enc = transformBuffer this b"
  by (simp add: transform_def chunkBuf_def)

lemma writeAll_frames:
  "stable this \<Longrightarrow>
   \<exists>this'. writeAll F this (buffers enc cs) =
            (this', fst (frames (concat (buf this) @ concat cs)), None) \<and>
          concat (buf this') = snd (frames (concat (buf this) @ concat cs)) \<and> stable this'"
proof (induction cs arbitrary: this)
  case Nil
  then show ?case
    by (simp add: buffers_def stable_def frames_incomplete)
next
  case (Cons b cs)
  from transformBuffer_stable [OF Cons.prems, of b] obtain this1 where
    t: "transformBuffer this b = (this1, fst (frames (concat (buf this) @ b)), None)"
    and r: "concat (buf this1) = snd (frames (concat (buf this) @ b))"
    and s: "stable this1"
    by blast
  from Cons.IH [OF s] obtain this' where
    w: "writeAll F this1 (buffers enc cs) =
          (this', fst (frames (concat (buf this1) @ concat cs)), None)"
    and r': "concat (buf this') = snd (frames (concat (buf this1) @ concat cs))"
    and s': "stable this'"
    by blast
  have f: "frames (concat (buf this) @ concat (b # cs)) =
      (fst (frames (concat (buf this) @ b)) @ fst (frames (concat (buf this1) @ concat cs)),
       snd (frames (concat (buf this1) @ concat cs)))"
    using frames_append [of "concat (buf this) @ b" "concat cs"] by (simp add: r)
  have "writeAll F this (buffers enc (b # cs)) =
      (this', fst (frames (concat (buf this) @ b)) @ fst (frames (concat (buf this1) @ concat cs)), None)"
    using w by (simp add: buffers_def transform_BufferChunk t)
  then show ?case
    using r' s' by (simp only: f fst_conv snd_conv) blast
qed


subsection \<open>The wire format against the reference framing\<close>

lemma unat_of_nat_byte: "n < 256 \<Longrightarrow> unat (of_nat n :: byte) = n"
  by (simp add: unat_of_nat)

lemma length_encodePacket: "length (encodePacket p) = 3 + length (data p)"
  by (simp add: encodePacket_def)

lemma payloadLength_encodePacket:
  assumes "validPacket p"
  shows "payloadLength (encodePacket p @ r) = length (data p)"
proof -
  have "length (data p) < 256 * 256"
    using assms by (simp add: validPacket_def)
  then have "length (data p) div 256 < 256"
    by (rule less_mult_imp_div_less)
  then show ?thesis
    by (simp add: payloadLength_def encodePacket_def numeral_2_eq_2 unat_of_nat_byte)
qed

lemma complete_encodePacket: "validPacket p \<Longrightarrow> complete (encodePacket p @ r)"
  by (simp add: complete_def payloadLength_encodePacket length_encodePacket)

lemma firstPacket_encodePacket:
  assumes "validPacket p"
  shows "firstPacket (encodePacket p @ r) = p"
proof -
  have "unat (of_nat (type p) :: byte) = type p"
    using assms by (simp add: validPacket_def unat_of_nat_byte)
  moreover have "(encodePacket p @ r) ! 0 = of_nat (type p)"
    by (simp add: encodePacket_def)
  moreover have "take (length (data p)) (drop 3 (encodePacket p @ r)) = data p"
    by (simp add: encodePacket_def)
  ultimately show ?thesis
    by (simp add: firstPacket_def payloadLength_encodePacket [OF assms])
qed

lemma frames_encodePacket:
  assumes "validPacket p"
  shows "frames (encodePacket p @ r) = (p # fst (frames r), snd (frames r))"
proof -
  have "drop (3 + length (data p)) (encodePacket p @ r) = r"
    by (simp add: encodePacket_def numeral_3_eq_3)
  then show ?thesis
    by (simp add: frames_complete [OF complete_encodePacket [OF assms]]
        payloadLength_encodePacket [OF assms] firstPacket_encodePacket [OF assms])
qed

lemma frames_encodeAll:
  "list_all validPacket ps \<Longrightarrow> frames (encodeAll ps @ r) = (ps @ fst (frames r), snd (frames r))"
proof (induction ps)
  case Nil
  show ?case by (simp add: encodeAll_def)
next
  case (Cons p ps)
  then have "frames (encodeAll ps @ r) = (ps @ fst (frames r), snd (frames r))" and v: "validPacket p"
    by simp_all
  then show ?case
    using frames_encodePacket [OF v, of "encodeAll ps @ r"] by (simp add: encodeAll_def)
qed

lemma prefix_incomplete:
  assumes "validPacket p" and "encodePacket p = pre @ suf" and "suf \<noteq> []"
  shows "\<not> complete pre"
proof
  assume c: "complete pre"
  then have "3 \<le> length pre" by (simp add: complete_def)
  then have "payloadLength pre = payloadLength (pre @ suf)"
    by (simp add: payloadLength_append)
  also have "\<dots> = length (data p)"
    using payloadLength_encodePacket [OF assms(1), of "[]"] assms(2) by simp
  finally have "3 + length (data p) \<le> length pre"
    using c by (simp add: complete_def)
  moreover have "length pre < 3 + length (data p)"
    using length_encodePacket [of p] assms(2,3) by (cases suf) auto
  ultimately show False by simp
qed

lemma byte_less: "unat (b :: byte) < 256"
  using unsigned_less [of b, where 'a = nat] by simp



lemma singletons_concat: "concat (map (\<lambda>b. [b]) bs) = bs"
  by (induction bs) simp_all

subsection \<open>Invariants at every reachable call\<close>

lemma pushChunk_invariants:
  assumes "stable this" and "pushChunk this b = (c, this')"
  shows "coherent this' \<and> (c \<or> headerInFirst this')"
proof -
  from assms(2) have c: "c = (bufLen this < HEADER_LENGTH)"
    and t: "this' = this\<lparr>buf := buf this @ [b], bufLen := bufLen this + length b\<rparr>"
    by (auto simp: pushChunk_def Let_def)
  from assms(1) show ?thesis
    unfolding c t by (auto simp: stable_def coherent_def headerInFirst_def)
qed

lemma tryReadPacket_invariants:
  assumes "coherent this" and "c \<or> headerInFirst this"
    and "tryReadPacket c this = (this', Inr (Some p))"
  shows "coherent this' \<and> headerInFirst this'"
  using assms(3) unfolding tryReadPacket_frames [OF assms(1,2)] Let_def
  by (auto simp: coherent_def headerInFirst_def split: if_splits)

lemma calls_invariants: "calls c this \<Longrightarrow> coherent this \<and> (c \<or> headerInFirst this)"
proof (induction rule: calls.induct)
  case (calls_first this b c this')
  then show ?case
    using pushChunk_invariants [OF reach_stable] by blast
next
  case (calls_next c this this' p)
  then show ?case
    using tryReadPacket_invariants by blast
qed

text \<open>
  An example run: the Buffer \<open>[1, 5, 0, 9]\<close> leaves a header and one of five payload
  bytes buffered.
\<close>

lemma transformBuffer_example:
  "transformBuffer constructor [1, 5, 0, 9] = (\<lparr>buf = [[1, 5, 0, 9]], bufLen = 4\<rparr>, [], None)"
proof -
  have p: "pushChunk constructor [1, 5, 0, 9] = (True, \<lparr>buf = [[1, 5, 0, 9]], bufLen = 4\<rparr>)"
    by (simp add: pushChunk_def constructor_def HEADER_LENGTH_def)
  have "readLoop True \<lparr>buf = [[1, 5, 0, 9]], bufLen = 4\<rparr> =
      (\<lparr>buf = [[1, 5, 0, 9]], bufLen = 4\<rparr>, [], None)"
    by (subst readLoop.simps)
       (simp add: tryReadPacket_def coalesce_def HEADER_LENGTH_def readUInt8_def readUInt16LE_def)
  then show ?thesis
    by (simp add: transformBuffer_def p)
qed

subsection \<open>The errors the loop can raise\<close>

lemma tryReadPacket_error:
  "tryReadPacket c this = (this', Inl e) \<Longrightarrow> e \<noteq> ObjectModeError"
  by (auto simp: tryReadPacket_def readUInt8_def readUInt16LE_def Let_def
           split: if_splits list.splits sum.splits)

lemma readLoop_error: "snd (snd (readLoop c this)) \<noteq> Some ObjectModeError"
proof (induction c this rule: readLoop.induct)
  case (1 c this)
  obtain this' r where t: "tryReadPacket c this = (this', r)"
    by (cases "tryReadPacket c this")
  show ?case
  proof (cases r)
    case (Inl e)
    with t tryReadPacket_error [of c this this' e] show ?thesis
      by (subst readLoop.simps) simp
  next
    case (Inr po)
    show ?thesis
    proof (cases po)
      case None
      with t Inr show ?thesis
        by (subst readLoop.simps) simp
    next
      case (Some p)
      with t Inr have t': "tryReadPacket c this = (this', Inr (Some p))"
        by simp
      from "1.IH" [OF t' [symmetric] refl refl] show ?thesis
        by (subst readLoop.simps) (simp add: t' case_prod_beta)
    qed
  qed
qed

subsection \<open>States with the same buffered bytes\<close>

text \<open>
  Two states between calls that hold the same buffered bytes answer every sequence of
  chunks with the same packets and the same outcome, and hold the same bytes afterwards.
\<close>

lemma transform_same_bytes:
  assumes "stable s" and "stable t" and "concat (buf s) = concat (buf t)"
  shows "\<exists>s' t' out r.
           transform F s chunk enc = (s', out, r) \<and> transform F t chunk enc = (t', out, r) \<and>
           stable s' \<and> stable t' \<and> concat (buf s') = concat (buf t')"
proof (cases "chunkBuf F chunk enc")
  case (Inl e)
  with assms show ?thesis
    by (simp add: transform_def)
next
  case (Inr b)
  from transformBuffer_stable [OF assms(1), of b] transformBuffer_stable [OF assms(2), of b]
  show ?thesis
    using assms(3) by (auto simp: transform_def Inr)
qed

lemma writeAll_same_bytes:
  "stable s \<Longrightarrow> stable t \<Longrightarrow> concat (buf s) = concat (buf t) \<Longrightarrow>
   \<exists>s' t' out r.
     writeAll F s chunks = (s', out, r) \<and> writeAll F t chunks = (t', out, r) \<and>
     stable s' \<and> stable t' \<and> concat (buf s') = concat (buf t')"
proof (induction chunks arbitrary: s t)
  case Nil
  then show ?case by simp
next
  case (Cons ce chunks)
  obtain chunk enc where ce: "ce = (chunk, enc)"
    by (cases ce)
  from transform_same_bytes [OF Cons.prems, of F chunk enc] obtain s1 t1 out1 r1 where
    ts: "transform F s chunk enc = (s1, out1, r1)" and tt: "transform F t chunk enc = (t1, out1, r1)"
    and st: "stable s1" "stable t1" "concat (buf s1) = concat (buf t1)"
    by blast
  show ?case
  proof (cases r1)
    case None
    from Cons.IH [OF st] obtain s' t' out r where
      "writeAll F s1 chunks = (s', out, r)" "writeAll F t1 chunks = (t', out, r)"
      "stable s'" "stable t'" "concat (buf s') = concat (buf t')"
      by blast
    then show ?thesis
      by (simp add: ce ts tt None)
  next
    case (Some e)
    with st show ?thesis
      by (simp add: ce ts tt)
  qed
qed

subsection \<open>States with nothing buffered, and an example run\<close>

lemma reach_empty:
  assumes "reach this" and "bufLen this = 0"
  shows "stable this" and "concat (buf this) = []"
  using reach_stable [OF assms(1)] assms(2) by (simp_all add: stable_def coherent_def)

text \<open>The chunk \<open>[type=1, len=2, 0xAA, 0xBB][type=2, len=0]\<close>, run through the loop.\<close>

lemma two_packets_example:
  "transformBuffer constructor [1, 2, 0, 170, 187, 2, 0, 0] =
     (\<lparr>buf = [[]], bufLen = 0\<rparr>,
      [\<lparr>type = 1, data = [170, 187]\<rparr>, \<lparr>type = 2, data = []\<rparr>], None)"
proof -
  note defs = tryReadPacket_def coalesce_def HEADER_LENGTH_def readUInt8_def readUInt16LE_def
  have p: "pushChunk constructor [1, 2, 0, 170, 187, 2, 0, 0] =
      (True, \<lparr>buf = [[1, 2, 0, 170, 187, 2, 0, 0]], bufLen = 8\<rparr>)"
    by (simp add: pushChunk_def constructor_def HEADER_LENGTH_def)
  have r3: "readLoop False \<lparr>buf = [[]], bufLen = 0\<rparr> = (\<lparr>buf = [[]], bufLen = 0\<rparr>, [], None)"
    by (subst readLoop.simps) (simp add: defs)
  have r2: "readLoop False \<lparr>buf = [[2, 0, 0]], bufLen = 3\<rparr> =
      (\<lparr>buf = [[]], bufLen = 0\<rparr>, [\<lparr>type = 2, data = []\<rparr>], None)"
    by (subst readLoop.simps) (simp add: defs r3)
  have r1: "readLoop True \<lparr>buf = [[1, 2, 0, 170, 187, 2, 0, 0]], bufLen = 8\<rparr> =
      (\<lparr>buf = [[]], bufLen = 0\<rparr>,
       [\<lparr>type = 1, data = [170, 187]\<rparr>, \<lparr>type = 2, data = []\<rparr>], None)"
    by (subst readLoop.simps) (simp add: defs r2)
  show ?thesis
    by (simp add: transformBuffer_def p r1)
qed

text \<open>A header with length zero is a whole packet.\<close>

lemma frames_header_only: "frames [t, 0, 0] = ([\<lparr>type = unat t, data = []\<rparr>], [])"
proof -
  have c: "complete [t, 0, 0]"
    by (simp add: complete_def payloadLength_def numeral_2_eq_2)
  show ?thesis
    by (subst frames_complete [OF c])
       (simp add: firstPacket_def payloadLength_def numeral_2_eq_2 frames_incomplete complete_def)
qed

section \<open>The claims\<close>

subsection \<open>Round trip and chunk boundaries\<close>

text \<open>
  Claim C1. Let \<open>ps\<close> be packets whose type and payload length fit the wire format, and
  let the Buffers \<open>cs\<close> be any partition of the concatenation of their encodings (empty
  Buffers allowed). Writing \<open>cs\<close> in order to a new framer ends without an error and
  pushes exactly \<open>ps\<close>, in order. So every partition pushes the same packets; the second
  and third conjunct spell this out for the single chunk and for one byte per chunk.
\<close>

theorem roundtrip_any_partition:
  assumes "list_all validPacket ps" and "concat cs = encodeAll ps"
  shows "(\<exists>this'. writeAll Buffer_from constructor (buffers encoding cs) = (this', ps, None)) \<and>
         (\<exists>this'. writeAll Buffer_from constructor (buffers encoding [encodeAll ps]) =
                    (this', ps, None)) \<and>
         (\<exists>this'. writeAll Buffer_from constructor
                      (buffers encoding (map (\<lambda>b. [b]) (encodeAll ps))) = (this', ps, None))"
proof -
  have f: "fst (frames (encodeAll ps)) = ps"
    using frames_encodeAll [OF assms(1), of "[]"] by (simp add: frames_incomplete complete_def)
  have "\<exists>this'. writeAll Buffer_from constructor (buffers encoding ds) = (this', ps, None)"
    if "concat ds = encodeAll ps" for ds
    using writeAll_frames [OF stable_constructor, of Buffer_from encoding ds] that f
    by (auto simp: constructor_def)
  from this [of cs] this [of "[encodeAll ps]"] this [of "map (\<lambda>b. [b]) (encodeAll ps)"]
  show ?thesis
    using assms(2) by (simp add: singletons_concat)
qed

text \<open>The theorem at two packets split into four chunks, one of them empty.\<close>

theorem roundtrip_any_partition_witness:
  "list_all validPacket [\<lparr>type = 1, data = [170, 187]\<rparr>, \<lparr>type = 2, data = []\<rparr>] \<and>
   concat [[1, 2], [], [0, 170, 187, 2, 0], [0]] =
     encodeAll [\<lparr>type = 1, data = [170, 187]\<rparr>, \<lparr>type = 2, data = []\<rparr>] \<and>
   (\<exists>this'. writeAll (\<lambda>str enc. []) constructor
               (buffers () [[1, 2], [], [0, 170, 187, 2, 0], [0]]) =
             (this', [\<lparr>type = 1, data = [170, 187]\<rparr>, \<lparr>type = 2, data = []\<rparr>], None))"
proof -
  have v: "list_all validPacket [\<lparr>type = 1, data = [170, 187]\<rparr>, \<lparr>type = 2, data = []\<rparr>]"
    by (simp add: validPacket_def)
  have c: "concat [[1, 2], [], [0, 170, 187, 2, 0], [0]] =
     encodeAll [\<lparr>type = 1, data = [170, 187]\<rparr>, \<lparr>type = 2, data = []\<rparr>]"
    by (simp add: encodeAll_def encodePacket_def)
  from roundtrip_any_partition [OF v c, of "\<lambda>str enc. []" "()"] v c show ?thesis
    by blast
qed

subsection \<open>The header fields and the payload\<close>

text \<open>
  Claim C2. Whenever \<open>#tryReadPacket\<close> is called, in any run, in a state whose buffered
  bytes start with \<open>b0\<close>, \<open>b1\<close>, \<open>b2\<close>: the type it reads is the unsigned value of \<open>b0\<close>,
  below 256; the payload length it reads is \<open>b1 + 256 * b2\<close>, below 65536; if fewer
  bytes than that follow the header it returns \<open>false\<close> and pushes nothing; otherwise it
  pushes the packet of that type whose data is exactly the next payload-length bytes,
  and keeps the bytes after them.
\<close>

theorem header_fields_and_payload:
  assumes "calls c this" and "concat (buf this) = b0 # b1 # b2 # rest"
  shows "unat b0 < 256 \<and> unat b1 + 256 * unat b2 < 65536 \<and>
     tryReadPacket c this =
       (let packetLength = unat b1 + 256 * unat b2 in
        if length rest < packetLength then (coalesce c this, Inr None)
        else (\<lparr>buf = [drop packetLength rest], bufLen = length rest - packetLength\<rparr>,
              Inr (Some \<lparr>type = unat b0, data = take packetLength rest\<rparr>)))"
proof -
  from calls_invariants [OF assms(1)] have inv: "coherent this" "c \<or> headerInFirst this"
    by simp_all
  define bs where "bs = concat (buf this)"
  have bs: "bs = b0 # b1 # b2 # rest"
    by (simp add: bs_def assms(2))
  have n: "payloadLength bs = unat b1 + 256 * unat b2"
    by (simp add: bs payloadLength_def numeral_2_eq_2)
  have c: "complete bs \<longleftrightarrow> \<not> length rest < unat b1 + 256 * unat b2"
    unfolding complete_def n by (auto simp: bs)
  have f: "firstPacket bs = \<lparr>type = unat b0, data = take (unat b1 + 256 * unat b2) rest\<rparr>"
    unfolding firstPacket_def n by (simp add: bs numeral_3_eq_3)
  have d: "drop (3 + (unat b1 + 256 * unat b2)) bs = drop (unat b1 + 256 * unat b2) rest"
    by (simp add: bs numeral_3_eq_3)
  have l: "length bs - (3 + (unat b1 + 256 * unat b2)) = length rest - (unat b1 + 256 * unat b2)"
    by (simp add: bs)
  have g: "\<not> bufLen this < HEADER_LENGTH"
    using inv(1) by (simp add: coherent_def assms(2) HEADER_LENGTH_def)
  have "tryReadPacket c this =
       (if length rest < unat b1 + 256 * unat b2 then (coalesce c this, Inr None)
        else (\<lparr>buf = [drop (unat b1 + 256 * unat b2) rest],
               bufLen = length rest - (unat b1 + 256 * unat b2)\<rparr>,
              Inr (Some \<lparr>type = unat b0, data = take (unat b1 + 256 * unat b2) rest\<rparr>)))"
    unfolding tryReadPacket_frames [OF inv] Let_def bs_def [symmetric] n c f d l
    using g by simp
  moreover have "unat b1 + 256 * unat b2 < 65536"
    using byte_less [of b1] byte_less [of b2] by simp
  ultimately show ?thesis
    using byte_less [of b0] by (simp add: Let_def)
qed

text \<open>The theorem at the first call after the Buffer \<open>[5, 1, 0, 9, 7]\<close> reached a new framer.\<close>

theorem header_fields_and_payload_witness:
  "calls True \<lparr>buf = [[5, 1, 0, 9, 7]], bufLen = 5\<rparr> \<and>
   concat (buf \<lparr>buf = [[5, 1, 0, 9, 7]], bufLen = 5\<rparr>) = 5 # 1 # 0 # [9, 7] \<and>
   tryReadPacket True \<lparr>buf = [[5, 1, 0, 9, 7]], bufLen = 5\<rparr> =
     (\<lparr>buf = [[7]], bufLen = 1\<rparr>, Inr (Some \<lparr>type = 5, data = [9]\<rparr>))"
proof -
  have "pushChunk constructor [5, 1, 0, 9, 7] = (True, \<lparr>buf = [[5, 1, 0, 9, 7]], bufLen = 5\<rparr>)"
    by (simp add: pushChunk_def constructor_def HEADER_LENGTH_def)
  then have c: "calls True \<lparr>buf = [[5, 1, 0, 9, 7]], bufLen = 5\<rparr>"
    by (rule calls_first [OF reach_init])
  have b: "concat (buf \<lparr>buf = [[5, 1, 0, 9, 7 :: byte]], bufLen = 5\<rparr>) = 5 # 1 # 0 # [9, 7]"
    by simp
  from header_fields_and_payload [OF c b] c b show ?thesis
    by simp
qed

subsection \<open>Chunks that are not bytes\<close>

text \<open>
  Claim C3. In every state, \<open>_transform\<close> answers a chunk that is neither a Buffer nor a
  string with the object-mode error, pushes no packet and returns the very state it
  started from, fields \<open>#buf\<close> and \<open>#bufLen\<close> untouched; hence any chunks written
  afterwards are treated exactly as they would have been without that call.
\<close>

theorem object_chunk_rejected:
  "transform Buffer_from this ObjectChunk encoding = (this, [], Some ObjectModeError) \<and>
   writeAll Buffer_from (fst (transform Buffer_from this ObjectChunk encoding)) chunks =
     writeAll Buffer_from this chunks"
  by (simp add: transform_def chunkBuf_def)

subsection \<open>The buffer between calls\<close>


subsection \<open>Partial packets\<close>

text \<open>
  Claim C5. Let \<open>p\<close> fit the wire format and let its encoding be split into a strict
  prefix and the non-empty rest, each written as any sequence of Buffers \<open>cs1\<close> and
  \<open>cs2\<close>. Writing \<open>cs1\<close> to a new framer pushes nothing; writing \<open>cs2\<close> afterwards pushes
  exactly \<open>p\<close> and leaves the buffer empty.
\<close>

theorem partial_then_rest:
  assumes "validPacket p" and "encodePacket p = concat cs1 @ concat cs2" and "concat cs2 \<noteq> []"
  shows "\<exists>this1 this2.
           writeAll Buffer_from constructor (buffers encoding cs1) = (this1, [], None) \<and>
           writeAll Buffer_from this1 (buffers encoding cs2) = (this2, [p], None) \<and>
           concat (buf this2) = [] \<and> bufLen this2 = 0"
proof -
  have inc: "\<not> complete (concat cs1)"
    using assms by (rule prefix_incomplete)
  from writeAll_frames [OF stable_constructor, of Buffer_from encoding cs1]
  obtain this1 where
    w1: "writeAll Buffer_from constructor (buffers encoding cs1) = (this1, [], None)"
    and r1: "concat (buf this1) = concat cs1" and s1: "stable this1"
    by (auto simp: constructor_def frames_incomplete [OF inc])
  have f: "frames (concat cs1 @ concat cs2) = ([p], [])"
    using frames_encodePacket [OF assms(1), of "[]"] assms(2)
    by (simp add: frames_incomplete complete_def)
  from writeAll_frames [OF s1, of Buffer_from encoding cs2]
  obtain this2 where
    w2: "writeAll Buffer_from this1 (buffers encoding cs2) = (this2, [p], None)"
    and r2: "concat (buf this2) = []" and s2: "stable this2"
    by (auto simp: r1 f)
  from s2 r2 have "bufLen this2 = 0"
    by (simp add: stable_def coherent_def)
  with w1 w2 r2 show ?thesis by blast
qed

text \<open>The theorem at a packet of two payload bytes, cut inside the header and the payload.\<close>

theorem partial_then_rest_witness:
  "validPacket \<lparr>type = 1, data = [170, 187]\<rparr> \<and>
   encodePacket \<lparr>type = 1, data = [170, 187]\<rparr> = concat [[1, 2], [0, 170]] @ concat [[187]] \<and>
   concat [[187 :: byte]] \<noteq> [] \<and>
   (\<exists>this1 this2.
      writeAll (\<lambda>str enc. []) constructor (buffers () [[1, 2], [0, 170]]) = (this1, [], None) \<and>
      writeAll (\<lambda>str enc. []) this1 (buffers () [[187]]) =
        (this2, [\<lparr>type = 1, data = [170, 187]\<rparr>], None) \<and>
      concat (buf this2) = [] \<and> bufLen this2 = 0)"
proof -
  have v: "validPacket \<lparr>type = 1, data = [170, 187]\<rparr>"
    by (simp add: validPacket_def)
  have e: "encodePacket \<lparr>type = 1, data = [170, 187]\<rparr> = concat [[1, 2], [0, 170]] @ concat [[187]]"
    by (simp add: encodePacket_def)
  have n: "concat [[187 :: byte]] \<noteq> []"
    by simp
  from partial_then_rest [OF v e n, of "\<lambda>str enc. []" "()"] v e n show ?thesis
    by blast
qed

subsection \<open>Many packets in one chunk\<close>

text \<open>
  Claim C6. Let the framer be in any state it can reach with nothing buffered, and let
  one chunk hold the encodings of the packets \<open>ps\<close> (none, one or many, each fitting the
  wire format) followed by a strict prefix \<open>partial\<close>, possibly empty, of the encoding of
  a further packet. That one call pushes exactly \<open>ps\<close>, in order, raises no error, and
  leaves exactly \<open>partial\<close> buffered. In particular the chunk
  \<open>[1, 2, 0, 0xAA, 0xBB, 2, 0, 0]\<close> written to a new framer pushes
  \<open>{type: 1, data: [0xAA, 0xBB]}\<close> and then \<open>{type: 2, data: []}\<close>.
\<close>

theorem many_packets_in_one_chunk:
  assumes "reach this" and "bufLen this = 0"
    and "list_all validPacket ps"
    and "validPacket q" and "encodePacket q = partial @ missing" and "missing \<noteq> []"
  shows "(\<exists>this'. transform Buffer_from this (BufferChunk (encodeAll ps @ partial)) encoding =
                    (this', ps, None) \<and>
                  concat (buf this') = partial \<and> bufLen this' = length partial) \<and>
         transform Buffer_from constructor (BufferChunk [1, 2, 0, 170, 187, 2, 0, 0]) encoding =
           (\<lparr>buf = [[]], bufLen = 0\<rparr>,
            [\<lparr>type = 1, data = [170, 187]\<rparr>, \<lparr>type = 2, data = []\<rparr>], None)"
proof -
  note e = reach_empty [OF assms(1,2)]
  have "\<not> complete partial"
    using assms(4-6) by (rule prefix_incomplete)
  then have f: "frames (encodeAll ps @ partial) = (ps, partial)"
    by (simp add: frames_encodeAll [OF assms(3)] frames_incomplete)
  from transformBuffer_stable [OF e(1), of "encodeAll ps @ partial"] obtain this' where
    t: "transformBuffer this (encodeAll ps @ partial) = (this', ps, None)"
    and c: "concat (buf this') = partial" and s: "stable this'"
    by (auto simp: e(2) f)
  from s c have "bufLen this' = length partial"
    by (simp add: stable_def coherent_def)
  with t c show ?thesis
    by (simp add: transform_BufferChunk two_packets_example)
qed

text \<open>The theorem at two packets followed by two bytes of a third header.\<close>

theorem many_packets_in_one_chunk_witness:
  "reach constructor \<and> bufLen constructor = 0 \<and>
   list_all validPacket [\<lparr>type = 1, data = [170, 187]\<rparr>, \<lparr>type = 2, data = []\<rparr>] \<and>
   validPacket \<lparr>type = 7, data = [9]\<rparr> \<and>
   encodePacket \<lparr>type = 7, data = [9]\<rparr> = [7, 1] @ [0, 9] \<and> [0, 9 :: byte] \<noteq> [] \<and>
   (\<exists>this'. transform (\<lambda>str enc. []) constructor
               (BufferChunk (encodeAll [\<lparr>type = 1, data = [170, 187]\<rparr>, \<lparr>type = 2, data = []\<rparr>]
                             @ [7, 1])) () =
               (this', [\<lparr>type = 1, data = [170, 187]\<rparr>, \<lparr>type = 2, data = []\<rparr>], None) \<and>
             concat (buf this') = [7, 1] \<and> bufLen this' = length [7, 1 :: byte])"
proof -
  have b: "bufLen constructor = 0"
    by (simp add: constructor_def)
  have v: "list_all validPacket [\<lparr>type = 1, data = [170, 187]\<rparr>, \<lparr>type = 2, data = []\<rparr>]"
    by (simp add: validPacket_def)
  have q: "validPacket \<lparr>type = 7, data = [9]\<rparr>"
    by (simp add: validPacket_def)
  have e: "encodePacket \<lparr>type = 7, data = [9]\<rparr> = [7, 1] @ [0, 9]"
    by (simp add: encodePacket_def)
  have n: "[0, 9 :: byte] \<noteq> []"
    by simp
  from many_packets_in_one_chunk [OF reach_init b v q e n, of "\<lambda>str enc. []" "()"]
    reach_init b v q e n
  show ?thesis
    by blast
qed

subsection \<open>Empty payloads\<close>

text \<open>
  Claim C7. For every type byte \<open>t\<close>, in any state the framer can reach with nothing
  buffered, the chunk \<open>[t, 0, 0]\<close> alone makes \<open>_transform\<close> push the packet of type \<open>t\<close>
  with empty data, with no error and nothing left buffered; and the same packet is
  pushed when the three bytes arrive split over several chunks.
\<close>

theorem zero_length_payload:
  assumes "reach this" and "bufLen this = 0"
  shows "(\<exists>this'. transform Buffer_from this (BufferChunk [t, 0, 0]) encoding =
                    (this', [\<lparr>type = unat t, data = []\<rparr>], None) \<and>
                  concat (buf this') = [] \<and> bufLen this' = 0) \<and>
         (\<forall>cs. concat cs = [t, 0, 0] \<longrightarrow>
            (\<exists>this'. writeAll Buffer_from this (buffers encoding cs) =
                        (this', [\<lparr>type = unat t, data = []\<rparr>], None) \<and>
                      concat (buf this') = [] \<and> bufLen this' = 0))"
proof -
  note e = reach_empty [OF assms]
  have c: "complete [t, 0, 0]"
    by (simp add: complete_def payloadLength_def numeral_2_eq_2)
  have f: "frames [t, 0, 0] = ([\<lparr>type = unat t, data = []\<rparr>], [])"
    by (subst frames_complete [OF c])
       (simp add: firstPacket_def payloadLength_def numeral_2_eq_2 frames_incomplete complete_def)
  have one: "\<exists>this'. transform Buffer_from this (BufferChunk [t, 0, 0]) encoding =
                    (this', [\<lparr>type = unat t, data = []\<rparr>], None) \<and>
                  concat (buf this') = [] \<and> bufLen this' = 0"
    using transformBuffer_stable [OF e(1), of "[t, 0, 0]"]
    by (auto simp: e(2) f transform_BufferChunk stable_def coherent_def)
  have "\<exists>this'. writeAll Buffer_from this (buffers encoding cs) =
                        (this', [\<lparr>type = unat t, data = []\<rparr>], None) \<and>
                      concat (buf this') = [] \<and> bufLen this' = 0"
    if "concat cs = [t, 0, 0]" for cs
    using writeAll_frames [OF e(1), of Buffer_from encoding cs] that
    by (auto simp: e(2) f stable_def coherent_def)
  with one show ?thesis by blast
qed

text \<open>The theorem at type 5, in one chunk and byte by byte.\<close>

theorem zero_length_payload_witness:
  "reach constructor \<and> bufLen constructor = 0 \<and> concat [[5], [0 :: byte], [0]] = [5, 0, 0] \<and>
   (\<exists>this'. transform (\<lambda>str enc. []) constructor (BufferChunk [5, 0, 0]) () =
               (this', [\<lparr>type = 5, data = []\<rparr>], None) \<and>
             concat (buf this') = [] \<and> bufLen this' = 0) \<and>
   (\<exists>this'. writeAll (\<lambda>str enc. []) constructor (buffers () [[5], [0], [0]]) =
               (this', [\<lparr>type = 5, data = []\<rparr>], None) \<and>
             concat (buf this') = [] \<and> bufLen this' = 0)"
proof -
  have b: "bufLen constructor = 0"
    by (simp add: constructor_def)
  have c: "concat [[5], [0 :: byte], [0]] = [5, 0, 0]"
    by simp
  from zero_length_payload [OF reach_init b, of "\<lambda>str enc. []" 5 "()"] have
    one: "\<exists>this'. transform (\<lambda>str enc. []) constructor (BufferChunk [5, 0, 0]) () =
               (this', [\<lparr>type = 5, data = []\<rparr>], None) \<and>
             concat (buf this') = [] \<and> bufLen this' = 0"
    and all: "\<And>cs. concat cs = [5, 0, 0] \<Longrightarrow>
            \<exists>this'. writeAll (\<lambda>str enc. []) constructor (buffers () cs) =
                        (this', [\<lparr>type = 5, data = []\<rparr>], None) \<and>
                      concat (buf this') = [] \<and> bufLen this' = 0"
    by simp_all
  from one all [OF c] reach_init b c show ?thesis
    by blast
qed

subsection \<open>Empty chunks\<close>

text \<open>
  Claim C8. In every state a framer can be in between calls, a chunk of no bytes (an
  empty Buffer, or a string that \<open>Buffer.from\<close> turns into one) pushes no packet and
  raises no error; the buffered byte sequence and \<open>#bufLen\<close> are as before; and every
  sequence of chunks written afterwards yields the same packets, the same outcome, the
  same buffered bytes and the same \<open>#bufLen\<close> as it would have without the empty chunk.
\<close>

theorem empty_chunk_noop:
  assumes "reach this" and "chunkBuf Buffer_from chunk encoding = Inr []"
  shows "\<exists>this'.
           transform Buffer_from this chunk encoding = (this', [], None) \<and>
           concat (buf this') = concat (buf this) \<and> bufLen this' = bufLen this \<and>
           (\<forall>chunks.
              snd (writeAll Buffer_from this' chunks) = snd (writeAll Buffer_from this chunks) \<and>
              concat (buf (fst (writeAll Buffer_from this' chunks))) =
                concat (buf (fst (writeAll Buffer_from this chunks))) \<and>
              bufLen (fst (writeAll Buffer_from this' chunks)) =
                bufLen (fst (writeAll Buffer_from this chunks)))"
proof -
  from reach_stable [OF assms(1)] have s: "stable this" .
  then have inc: "frames (concat (buf this)) = ([], concat (buf this))"
    by (simp add: stable_def frames_incomplete)
  from transformBuffer_stable [OF s, of "[]"] obtain this' where
    t: "transform Buffer_from this chunk encoding = (this', [], None)"
    and c: "concat (buf this') = concat (buf this)" and s': "stable this'"
    by (auto simp: transform_def assms(2) inc)
  have l: "bufLen this' = bufLen this"
    using s s' c by (simp add: stable_def coherent_def)
  have "snd (writeAll Buffer_from this' chunks) = snd (writeAll Buffer_from this chunks) \<and>
        concat (buf (fst (writeAll Buffer_from this' chunks))) =
          concat (buf (fst (writeAll Buffer_from this chunks))) \<and>
        bufLen (fst (writeAll Buffer_from this' chunks)) =
          bufLen (fst (writeAll Buffer_from this chunks))" for chunks
    using writeAll_same_bytes [OF s' s c, of Buffer_from chunks]
    by (auto simp: stable_def coherent_def)
  with t c l show ?thesis by blast
qed

text \<open>The theorem at a state holding a header and part of a payload.\<close>

theorem empty_chunk_noop_witness:
  "reach \<lparr>buf = [[1, 5, 0, 9]], bufLen = 4\<rparr> \<and>
   chunkBuf (\<lambda>str enc. []) (BufferChunk []) () = Inr [] \<and>
   (\<exists>this'.
      transform (\<lambda>str enc. []) \<lparr>buf = [[1, 5, 0, 9]], bufLen = 4\<rparr> (BufferChunk []) () =
        (this', [], None) \<and>
      concat (buf this') = [1, 5, 0, 9] \<and> bufLen this' = 4)"
proof -
  have "reach (fst (transformBuffer constructor [1, 5, 0, 9]))"
    by (rule reach_step [OF reach_init])
  then have r: "reach \<lparr>buf = [[1, 5, 0, 9]], bufLen = 4\<rparr>"
    by (simp add: transformBuffer_example)
  have c: "chunkBuf (\<lambda>str enc. []) (BufferChunk []) () = Inr []"
    by (simp add: chunkBuf_def)
  from empty_chunk_noop [OF r c] r c show ?thesis
    by auto
qed

subsection \<open>The header reads stay in bounds\<close>

text \<open>
  Claim C9. Whenever \<open>#tryReadPacket\<close> is called, in any run, with at least three bytes
  buffered, the buffer array is not empty at the header reads (after lines 82-85) and
  its first Buffer holds at least three bytes, also when \<open>shouldConcatHeader\<close> is
  \<open>false\<close>, where \<open>coalesce\<close> changes nothing; so the call does not throw.
\<close>

theorem header_reads_in_bounds:
  assumes "calls c this" and "HEADER_LENGTH \<le> bufLen this"
  shows "buf (coalesce c this) \<noteq> [] \<and>
         HEADER_LENGTH \<le> length (hd (buf (coalesce c this))) \<and>
         (\<exists>r. snd (tryReadPacket c this) = Inr r)"
proof -
  from calls_invariants [OF assms(1)] have inv: "coherent this" "c \<or> headerInFirst this"
    by simp_all
  have "buf (coalesce c this) \<noteq> [] \<and> HEADER_LENGTH \<le> length (hd (buf (coalesce c this)))"
    using inv assms(2) by (auto simp: coalesce_def coherent_def headerInFirst_def)
  moreover have "\<exists>r. snd (tryReadPacket c this) = Inr r"
    unfolding tryReadPacket_frames [OF inv] Let_def by simp
  ultimately show ?thesis by simp
qed

text \<open>
  The theorem at a call with \<open>shouldConcatHeader = false\<close>: four bytes were buffered
  when the Buffer \<open>[7]\<close> arrived.
\<close>

theorem header_reads_in_bounds_witness:
  "calls False \<lparr>buf = [[1, 5, 0, 9], [7]], bufLen = 5\<rparr> \<and>
   HEADER_LENGTH \<le> bufLen \<lparr>buf = [[1, 5, 0, 9], [7]], bufLen = 5\<rparr> \<and>
   3 \<le> length (hd (buf \<lparr>buf = [[1, 5, 0, 9], [7 :: byte]], bufLen = 5\<rparr>)) \<and>
   (\<exists>r. snd (tryReadPacket False \<lparr>buf = [[1, 5, 0, 9], [7]], bufLen = 5\<rparr>) = Inr r)"
proof -
  have "reach (fst (transformBuffer constructor [1, 5, 0, 9]))"
    by (rule reach_step [OF reach_init])
  then have r: "reach \<lparr>buf = [[1, 5, 0, 9]], bufLen = 4\<rparr>"
    by (simp add: transformBuffer_example)
  have "pushChunk \<lparr>buf = [[1, 5, 0, 9]], bufLen = 4\<rparr> [7] =
      (False, \<lparr>buf = [[1, 5, 0, 9], [7]], bufLen = 5\<rparr>)"
    by (simp add: pushChunk_def HEADER_LENGTH_def)
  then have c: "calls False \<lparr>buf = [[1, 5, 0, 9], [7]], bufLen = 5\<rparr>"
    by (rule calls_first [OF r])
  have h: "HEADER_LENGTH \<le> bufLen \<lparr>buf = [[1, 5, 0, 9], [7]], bufLen = 5\<rparr>"
    by (simp add: HEADER_LENGTH_def)
  from header_reads_in_bounds [OF c h] c h show ?thesis
    by (simp add: coalesce_def HEADER_LENGTH_def)
qed

subsection \<open>String chunks\<close>

text \<open>
  Claim C10. In every state a framer can be in between calls, \<open>_transform\<close> does not
  reject a string chunk: it ends without an error, and it treats the string exactly as
  it treats the Buffer that \<open>Buffer.from(chunk, encoding)\<close> yields. The bytes of that
  Buffer are appended to the buffered bytes and framed: the packets pushed are the
  complete packets at the front of the buffered bytes followed by the string's bytes, in
  order, and the bytes after them stay buffered, counted by \<open>#bufLen\<close>.
\<close>

theorem string_chunk_as_bytes:
  assumes "reach this"
  shows "transform Buffer_from this (StringChunk str) encoding =
           transform Buffer_from this (BufferChunk (Buffer_from str encoding)) encoding' \<and>
         (\<exists>this'.
            transform Buffer_from this (StringChunk str) encoding =
              (this', fst (frames (concat (buf this) @ Buffer_from str encoding)), None) \<and>
            concat (buf this') = snd (frames (concat (buf this) @ Buffer_from str encoding)) \<and>
            bufLen this' = length (concat (buf this')) \<and> reach this')"
proof -
  have e: "transform Buffer_from this (StringChunk str) encoding =
      transformBuffer this (Buffer_from str encoding)"
    by (simp add: transform_def chunkBuf_def)
  from transformBuffer_stable [OF reach_stable [OF assms], of "Buffer_from str encoding"]
  obtain this' where
    t: "transformBuffer this (Buffer_from str encoding) =
          (this', fst (frames (concat (buf this) @ Buffer_from str encoding)), None)"
    and r: "concat (buf this') = snd (frames (concat (buf this) @ Buffer_from str encoding))"
    and s: "stable this'"
    by blast
  have "reach (fst (transformBuffer this (Buffer_from str encoding)))"
    using assms by (rule reach_step)
  then have "reach this'"
    by (simp add: t)
  moreover from s have "bufLen this' = length (concat (buf this'))"
    by (simp add: stable_def coherent_def)
  ultimately show ?thesis
    using t r by (simp add: e transform_BufferChunk)
qed

text \<open>
  The theorem at a new framer and a string of the three characters with codes 5, 0, 0,
  under an encoding of one byte per character: the packet of type 5 with empty data is
  pushed.
\<close>

theorem string_chunk_as_bytes_witness:
  "reach constructor \<and>
   (\<exists>this'.
      transform (\<lambda>str enc. map (\<lambda>c. of_nat (of_char c)) str) constructor
        (StringChunk [CHR 0x05, CHR 0x00, CHR 0x00]) () =
        (this', [\<lparr>type = 5, data = []\<rparr>], None) \<and>
      concat (buf this') = [] \<and> bufLen this' = 0)"
proof -
  have b: "map (\<lambda>c. of_nat (of_char c)) [CHR 0x05, CHR 0x00, CHR 0x00] = [5, 0, 0 :: byte]"
    by simp
  have c: "concat (buf constructor) = []"
    by (simp add: constructor_def)
  note string_chunk_as_bytes [OF reach_init,
      of "\<lambda>str enc. map (\<lambda>c. of_nat (of_char c)) str" "[CHR 0x05, CHR 0x00, CHR 0x00]" "()",
      THEN conjunct2, unfolded b c append_Nil]
  then obtain this' where
    "transform (\<lambda>str enc. map (\<lambda>c. of_nat (of_char c)) str) constructor
        (StringChunk [CHR 0x05, CHR 0x00, CHR 0x00]) () =
        (this', fst (frames [5, 0, 0]), None)"
    "concat (buf this') = snd (frames [5, 0, 0])" "bufLen this' = length (concat (buf this'))"
    by blast
  then show ?thesis
    using reach_init by (simp add: frames_header_only [of 5, simplified])
qed

end
